theory Spec2Isabelle
  imports Main "HOL-Library.Sublist"
begin

section \<open>Python values, exceptions and function objects\<close>

text \<open>
  The values that flow through \<^verbatim>\<open>pytype/utils.py\<close>'s \<^verbatim>\<open>memoize\<close>,
  \<^verbatim>\<open>DynamicVar\<close> and \<^verbatim>\<open>AnnotatingDecorator\<close>. Equality of the datatype is
  Python's \<^verbatim>\<open>==\<close> on these values, which is also the equality a \<^verbatim>\<open>dict\<close> uses for
  its keys. Booleans and floats are left out (Python identifies \<^verbatim>\<open>True\<close>, \<^verbatim>\<open>1\<close> and
  \<^verbatim>\<open>1.0\<close> as keys). \<open>PBuiltin n\<close> is the object the builtins namespace binds to \<open>n\<close>.
\<close>

datatype pyval =
    PNone
  | PInt int
  | PStr string
  | PTuple "pyval list"
  | PList "pyval list"
  | PBuiltin string

text \<open>
  Exceptions as values. \<open>Exc\<close> is any exception raised by user code. \<open>OutsideFragment\<close>
  is not a Python exception: it marks an input on which the model of \<^verbatim>\<open>compile\<close> and
  \<^verbatim>\<open>eval\<close> says nothing.
\<close>

datatype pyerr =
    NameError string
  | IndexError
  | TypeError
  | SyntaxError
  | Exc string
  | OutsideFragment

text \<open>
  A function object: the attributes the module reads (\<^verbatim>\<open>__name__\<close>,
  \<^verbatim>\<open>__code__.co_varnames\<close>, \<^verbatim>\<open>__code__.co_argcount\<close>, \<^verbatim>\<open>__defaults__\<close>, with
  \<^verbatim>\<open>None\<close> and \<^verbatim>\<open>()\<close> both the empty list) and what calling it does:
  \<^verbatim>\<open>f(*posargs, **kwargs)\<close> in a world \<open>'w\<close> (everything outside the arguments that
  the function reads or writes) returns a value or raises, and leaves a new world.
\<close>

record 'w pyfunc =
  fn_name :: string
  co_varnames :: "string list"
  co_argcount :: nat
  fn_defaults :: "pyval list"
  fn_body :: "pyval list \<Rightarrow> (string \<times> pyval) list \<Rightarrow> 'w \<Rightarrow> (pyerr + pyval) \<times> 'w"

section \<open>AnnotatingDecorator\<close>

text \<open>
  \<^verbatim>\<open>self.lookup = {}\<close>; \<^verbatim>\<open>__call__(value)\<close> returns the closure \<^verbatim>\<open>decorate\<close>, which
  stores \<^verbatim>\<open>self.lookup[f.__name__] = value\<close> and returns \<^verbatim>\<open>f\<close>.
\<close>

type_synonym registry = "string \<rightharpoonup> pyval"

definition AnnotatingDecorator_init :: registry where
  "AnnotatingDecorator_init = Map.empty"

definition decorate :: "pyval \<Rightarrow> 'w pyfunc \<Rightarrow> registry \<Rightarrow> 'w pyfunc \<times> registry" where
  "decorate value f lookup = (f, lookup(fn_name f \<mapsto> value))"

definition AnnotatingDecorator_call ::
    "pyval \<Rightarrow> ('w pyfunc \<Rightarrow> registry \<Rightarrow> 'w pyfunc \<times> registry)" where
  "AnnotatingDecorator_call value = decorate value"

text \<open>A run of decorations \<^verbatim>\<open>@registry(value)\<close>, in program order.\<close>

fun decorate_all :: "(pyval \<times> 'w pyfunc) list \<Rightarrow> registry \<Rightarrow> registry" where
  "decorate_all [] lookup = lookup"
| "decorate_all ((value, f) # rest) lookup =
     decorate_all rest (snd (AnnotatingDecorator_call value f lookup))"

text \<open>
  Modelled from the spec: the query operation \<^verbatim>\<open>lookup(name)\<close>. The class has no such
  method; it exposes the dictionary \<^verbatim>\<open>lookup\<close> itself, and the code that reads it is
  not in this module. The spec's operation "returns the previously attached value or an
  explicit not-found signal", which is \<^verbatim>\<open>lookup.get(name)\<close>.
\<close>

definition registry_lookup :: "registry \<Rightarrow> string \<Rightarrow> pyval option" where
  "registry_lookup lookup name = lookup name"

section \<open>The key language: \<^verbatim>\<open>compile\<close> and \<^verbatim>\<open>eval\<close>\<close>

text \<open>
  \<^verbatim>\<open>memoize\<close> compiles its key, a string, with \<^verbatim>\<open>compile(key, mode="eval")\<close> and
  evaluates the code object with \<^verbatim>\<open>eval(key_program, args)\<close>. Both are Python's own,
  so they are modelled on a fragment of the expression language: names, parenthesised
  expressions, tuples and calls, over the tokens \<^verbatim>\<open>NAME ( ) ,\<close> separated by spaces.
  On these tokens the grammar below is all of Python's
  (\<^verbatim>\<open>testlist: test (',' test)* [',']\<close>,
  \<^verbatim>\<open>atom: NAME | '(' [testlist] ')'\<close>, \<^verbatim>\<open>trailer: '(' [arglist] ')'\<close>), so a
  string of them that does not parse is a \<^verbatim>\<open>SyntaxError\<close>. A string with any other
  character, a keyword, a number or leading white space is \<open>OutsideFragment\<close>; so is
  one with \<^verbatim>\<open>__debug__\<close>, a constant, or \<^verbatim>\<open>__builtins__\<close>, which \<^verbatim>\<open>eval\<close> itself
  adds to the dictionary it is given.
\<close>

datatype expr = Name string | TupleE "expr list" | CallE expr "expr list"

datatype token = TName string | TLpar | TRpar | TComma

definition ident_start :: "char \<Rightarrow> bool" where
  "ident_start c = (c \<in> set ''abcdefghijklmnopqrstuvwxyzABCDEFGHIJKLMNOPQRSTUVWXYZ_'')"

definition ident_char :: "char \<Rightarrow> bool" where
  "ident_char c = (ident_start c \<or> c \<in> set ''0123456789'')"

definition reserved_words :: "string list" where
  "reserved_words =
    [''False'', ''None'', ''True'', ''and'', ''as'', ''assert'', ''async'', ''await'',
     ''break'', ''class'', ''continue'', ''def'', ''del'', ''elif'', ''else'', ''except'',
     ''exec'', ''finally'', ''for'', ''from'', ''global'', ''if'', ''import'', ''in'', ''is'',
     ''lambda'', ''nonlocal'', ''not'', ''or'', ''pass'', ''print'', ''raise'', ''return'',
     ''try'', ''while'', ''with'', ''yield'', ''__debug__'', ''__builtins__'']"

definition is_identifier :: "string \<Rightarrow> bool" where
  "is_identifier s =
     (s \<noteq> [] \<and> ident_start (hd s) \<and> list_all ident_char s \<and> s \<notin> set reserved_words)"

definition flush :: "string \<Rightarrow> token list option \<Rightarrow> token list option" where
  "flush cur rest =
     (if cur = [] then rest
      else if is_identifier cur then map_option ((#) (TName cur)) rest
      else None)"

text \<open>The tokens of a line; \<open>cur\<close> is the name being read. \<open>None\<close>: outside the fragment.\<close>

fun lex :: "string \<Rightarrow> string \<Rightarrow> token list option" where
  "lex cur [] = flush cur (Some [])"
| "lex cur (c # cs) =
     (if ident_char c then lex (cur @ [c]) cs
      else if c = CHR ''('' then flush cur (map_option ((#) TLpar) (lex [] cs))
      else if c = CHR '')'' then flush cur (map_option ((#) TRpar) (lex [] cs))
      else if c = CHR '','' then flush cur (map_option ((#) TComma) (lex [] cs))
      else if c = CHR '' '' then flush cur (lex [] cs)
      else None)"

text \<open>
  A frame of the parser is an open bracket (or the top level): the callee when the
  bracket opens a call's arguments, the items before the last comma (latest first), the
  expression read since then, and whether a comma was seen.
\<close>

datatype frame = Frame "expr option" "expr list" "expr option" bool

fun close_seq :: "expr list \<Rightarrow> expr option \<Rightarrow> expr list" where
  "close_seq items None = rev items"
| "close_seq items (Some e) = rev (e # items)"

fun finish_group :: "expr list \<Rightarrow> expr option \<Rightarrow> bool \<Rightarrow> expr" where
  "finish_group items cur commas =
     (if commas then TupleE (close_seq items cur)
      else (case cur of Some e \<Rightarrow> e | None \<Rightarrow> TupleE []))"

fun parse :: "frame \<Rightarrow> frame list \<Rightarrow> token list \<Rightarrow> pyerr + expr" where
  "parse (Frame callee items cur commas) stack [] =
     (if stack \<noteq> [] \<or> (cur = None \<and> \<not> commas) then Inl SyntaxError
      else Inr (finish_group items cur commas))"
| "parse (Frame callee items cur commas) stack (TName n # ts) =
     (case cur of
        None \<Rightarrow> parse (Frame callee items (Some (Name n)) commas) stack ts
      | Some _ \<Rightarrow> Inl SyntaxError)"
| "parse (Frame callee items cur commas) stack (TComma # ts) =
     (case cur of
        None \<Rightarrow> Inl SyntaxError
      | Some e \<Rightarrow> parse (Frame callee (e # items) None True) stack ts)"
| "parse (Frame callee items cur commas) stack (TLpar # ts) =
     parse (Frame cur [] None False) (Frame callee items None commas # stack) ts"
| "parse (Frame callee items cur commas) stack (TRpar # ts) =
     (case stack of
        [] \<Rightarrow> Inl SyntaxError
      | Frame callee' items' _ commas' # stack' \<Rightarrow>
          parse (Frame callee' items'
                   (Some (case callee of
                            Some f \<Rightarrow> CallE f (close_seq items cur)
                          | None \<Rightarrow> finish_group items cur commas))
                   commas') stack' ts)"

definition py_compile :: "string \<Rightarrow> pyerr + expr" where
  "py_compile source =
     (if source \<noteq> [] \<and> hd source = CHR '' '' then Inl OutsideFragment
      else (case lex [] source of
              None \<Rightarrow> Inl OutsideFragment
            | Some ts \<Rightarrow> parse (Frame None [] None False) [] ts))"

text \<open>
  Calling a value: none of the modelled data is callable (\<^verbatim>\<open>TypeError\<close>); what a
  builtin does when called is not modelled.
\<close>

fun apply_value :: "pyval \<Rightarrow> pyval list \<Rightarrow> pyerr + pyval" where
  "apply_value (PBuiltin n) args = Inl OutsideFragment"
| "apply_value _ args = Inl TypeError"

text \<open>
  \<^verbatim>\<open>eval(program, globals)\<close>: a name is looked up in \<open>globals\<close>, then in the builtins
  \<open>bi\<close> (a parameter: the namespace depends on the interpreter), and is a
  \<^verbatim>\<open>NameError\<close> when in neither. Operands are evaluated left to right; the first
  failure is the result.
\<close>

fun py_eval :: "(string \<rightharpoonup> pyval) \<Rightarrow> (string \<rightharpoonup> pyval) \<Rightarrow> expr \<Rightarrow> pyerr + pyval"
and py_eval_list ::
    "(string \<rightharpoonup> pyval) \<Rightarrow> (string \<rightharpoonup> pyval) \<Rightarrow> expr list \<Rightarrow> pyerr + pyval list"
where
  "py_eval bi g (Name n) =
     (case g n of
        Some v \<Rightarrow> Inr v
      | None \<Rightarrow> (case bi n of Some v \<Rightarrow> Inr v | None \<Rightarrow> Inl (NameError n)))"
| "py_eval bi g (TupleE es) =
     (case py_eval_list bi g es of Inl e \<Rightarrow> Inl e | Inr vs \<Rightarrow> Inr (PTuple vs))"
| "py_eval bi g (CallE f args) =
     (case py_eval bi g f of
        Inl e \<Rightarrow> Inl e
      | Inr fv \<Rightarrow> (case py_eval_list bi g args of
                    Inl e \<Rightarrow> Inl e
                  | Inr vs \<Rightarrow> apply_value fv vs))"
| "py_eval_list bi g [] = Inr []"
| "py_eval_list bi g (e # es) =
     (case py_eval bi g e of
        Inl err \<Rightarrow> Inl err
      | Inr v \<Rightarrow> (case py_eval_list bi g es of
                   Inl err \<Rightarrow> Inl err
                 | Inr vs \<Rightarrow> Inr (v # vs)))"


text \<open>A dictionary key must be hashable: a list is not, a tuple is when its items are.\<close>

fun hashable :: "pyval \<Rightarrow> bool" where
  "hashable (PList vs) = False"
| "hashable (PTuple vs) = list_all hashable vs"
| "hashable v = True"

section \<open>memoize\<close>

text \<open>\<^verbatim>\<open>_arg_names(f)\<close>: \<^verbatim>\<open>f.__code__.co_varnames[:f.__code__.co_argcount]\<close>.\<close>

definition arg_names :: "'w pyfunc \<Rightarrow> string list" where
  "arg_names f = take (co_argcount f) (co_varnames f)"

text \<open>\<^verbatim>\<open>sep.join(xs)\<close>.\<close>

fun join :: "string \<Rightarrow> string list \<Rightarrow> string" where
  "join sep [] = []"
| "join sep [x] = x"
| "join sep (x # y # ys) = x @ sep @ join sep (y # ys)"

text \<open>\<^verbatim>\<open>dict(pairs)\<close>: of two pairs with one key, the later one stays.\<close>

definition dict_of :: "('k \<times> 'v) list \<Rightarrow> ('k \<rightharpoonup> 'v)" where
  "dict_of pairs = map_of (rev pairs)"

text \<open>
  What \<^verbatim>\<open>memoize.__call__(self, f)\<close> leaves in the closure of \<^verbatim>\<open>call\<close>: five
  variables that are never assigned again, and the two dictionaries \<^verbatim>\<open>memoized\<close> and
  \<^verbatim>\<open>shared_dict\<close> that \<^verbatim>\<open>call\<close> mutates. \<^verbatim>\<open>memoized.get(key, no_result)\<close> with
  the fresh object \<^verbatim>\<open>no_result\<close> is the lookup of a map: \<open>None\<close> is \<^verbatim>\<open>no_result\<close>.
  \<^verbatim>\<open>defaults\<close> is kept as the list of pairs the dictionary is built from; it is empty
  exactly when the dictionary is.
\<close>

record 'w memo_closure =
  key_program :: expr
  argnames :: "string list"
  defaults :: "(string \<times> pyval) list"
  pos_and_arg_tuples :: "(nat \<times> string) list"
  wrapped :: "'w pyfunc"

record memo_state =
  memoized :: "pyval \<rightharpoonup> pyval"
  shared_dict :: "string \<rightharpoonup> pyval"

text \<open>
  \<^verbatim>\<open>memoize(key)(f)\<close>. \<^verbatim>\<open>compile\<close> runs here, so its failure is raised here.
  \<^verbatim>\<open>argnames[-len(f.__defaults__):]\<close> is taken only when there are defaults.
\<close>

definition memoize_call :: "string \<Rightarrow> 'w pyfunc \<Rightarrow> pyerr + ('w memo_closure \<times> memo_state)" where
  "memoize_call key f =
     (case py_compile key of
        Inl e \<Rightarrow> Inl e
      | Inr program \<Rightarrow>
          Inr (\<lparr>key_program = program,
                argnames = arg_names f,
                defaults =
                  (if fn_defaults f \<noteq> []
                   then zip (drop (length (arg_names f) - length (fn_defaults f)) (arg_names f))
                            (fn_defaults f)
                   else []),
                pos_and_arg_tuples = zip [0..<co_argcount f] (arg_names f),
                wrapped = f\<rparr>,
               \<lparr>memoized = Map.empty, shared_dict = Map.empty\<rparr>))"

text \<open>
  \<^verbatim>\<open>memoize.__new__(cls, key_or_function)\<close>: applied to a function it builds the key
  \<^verbatim>\<open>"(" + ", ".join(_arg_names(f)) + ")"\<close> and returns \<^verbatim>\<open>memoize(key)(f)\<close>; applied to
  a key it returns the decorator, which \<^verbatim>\<open>__init__\<close> gives the key.
\<close>

definition default_key :: "'w pyfunc \<Rightarrow> string" where
  "default_key f = ''('' @ join '', '' (arg_names f) @ '')''"




text \<open>
  The fast path's loop \<^verbatim>\<open>for pos, arg in pos_and_arg_tuples: shared_dict[arg] =
  posargs[pos]\<close>. \<^verbatim>\<open>posargs[pos]\<close> raises \<^verbatim>\<open>IndexError\<close> when the call has too few
  positional arguments; the entries written before it stay written.
\<close>

fun fill_shared_dict ::
    "(nat \<times> string) list \<Rightarrow> pyval list \<Rightarrow> (string \<rightharpoonup> pyval) \<Rightarrow> pyerr option \<times> (string \<rightharpoonup> pyval)"
where
  "fill_shared_dict [] posargs d = (None, d)"
| "fill_shared_dict ((pos, arg) # rest) posargs d =
     (if pos < length posargs then fill_shared_dict rest posargs (d(arg \<mapsto> posargs ! pos))
      else (Some IndexError, d))"

text \<open>
  The slow path's dictionary: \<^verbatim>\<open>args = defaults.copy();
  args.update(dict(zip(argnames, posargs))); args.update(kwargs)\<close>.
\<close>

definition call_args ::
    "'w memo_closure \<Rightarrow> pyval list \<Rightarrow> (string \<times> pyval) list \<Rightarrow> (string \<rightharpoonup> pyval)" where
  "call_args c posargs kwargs =
     dict_of (defaults c) ++ dict_of (zip (argnames c) posargs) ++ dict_of kwargs"

text \<open>The first half of \<^verbatim>\<open>call\<close>: the key of this call, or the exception raised on the way.\<close>

definition derive_key ::
    "(string \<rightharpoonup> pyval) \<Rightarrow> 'w memo_closure \<Rightarrow> memo_state \<Rightarrow> pyval list \<Rightarrow> (string \<times> pyval) list
     \<Rightarrow> (pyerr + pyval) \<times> memo_state" where
  "derive_key bi c s posargs kwargs =
     (if kwargs \<noteq> [] \<or> defaults c \<noteq> []
      then (py_eval bi (call_args c posargs kwargs) (key_program c), s)
      else (case fill_shared_dict (pos_and_arg_tuples c) posargs (shared_dict s) of
              (Some e, d) \<Rightarrow> (Inl e, s\<lparr>shared_dict := d\<rparr>)
            | (None, d) \<Rightarrow> (py_eval bi d (key_program c), s\<lparr>shared_dict := d\<rparr>)))"

text \<open>
  \<^verbatim>\<open>call(*posargs, **kwargs)\<close>. \<^verbatim>\<open>memoized.get\<close> hashes the key, a \<^verbatim>\<open>TypeError\<close>
  when it cannot. The wrapped function runs on a miss only, and its result is stored
  only when it returns. The wrapped function acts on the world \<open>'w\<close>, which does not
  hold the closure's two dictionaries: a function that calls its own wrapper while it
  runs is outside this model.
\<close>

definition call ::
    "(string \<rightharpoonup> pyval) \<Rightarrow> 'w memo_closure \<Rightarrow> memo_state \<Rightarrow> 'w \<Rightarrow> pyval list \<Rightarrow> (string \<times> pyval) list
     \<Rightarrow> (pyerr + pyval) \<times> memo_state \<times> 'w" where
  "call bi c s w posargs kwargs =
     (case derive_key bi c s posargs kwargs of
        (Inl e, s1) \<Rightarrow> (Inl e, s1, w)
      | (Inr key, s1) \<Rightarrow>
          if \<not> hashable key then (Inl TypeError, s1, w)
          else (case memoized s1 key of
                  Some result \<Rightarrow> (Inr result, s1, w)
                | None \<Rightarrow>
                    (case fn_body (wrapped c) posargs kwargs w of
                       (Inl e, w') \<Rightarrow> (Inl e, s1, w')
                     | (Inr result, w') \<Rightarrow>
                         (Inr result, s1\<lparr>memoized := (memoized s1)(key \<mapsto> result)\<rparr>, w'))))"


section \<open>DynamicVar\<close>

text \<open>
  \<^verbatim>\<open>self._local = threading.local()\<close> gives every thread its own attribute
  \<^verbatim>\<open>values\<close>, absent until the thread sets it. The attribute refers to a list
  object; lists are mutable and shared by reference, so they live in a heap, and a new
  list takes the next free address.
\<close>

type_synonym tid = nat
type_synonym addr = nat

record dynvar =
  local_values :: "tid \<rightharpoonup> addr"
  heap :: "addr \<Rightarrow> pyval list"
  next_addr :: addr

definition DynamicVar_init :: dynvar where
  "DynamicVar_init = \<lparr>local_values = Map.empty, heap = (\<lambda>a. []), next_addr = 0\<rparr>"

text \<open>
  \<^verbatim>\<open>_values(self)\<close>, on thread \<open>t\<close>: the thread's list, created as \<^verbatim>\<open>[None]\<close> when
  \<^verbatim>\<open>getattr(self._local, "values", None)\<close> is \<^verbatim>\<open>None\<close>.
\<close>

definition dv_values :: "tid \<Rightarrow> dynvar \<Rightarrow> addr \<times> dynvar" where
  "dv_values t s =
     (case local_values s t of
        Some a \<Rightarrow> (a, s)
      | None \<Rightarrow>
          (next_addr s,
           s\<lparr>heap := (heap s)(next_addr s := [PNone]),
             local_values := (local_values s)(t \<mapsto> next_addr s),
             next_addr := Suc (next_addr s)\<rparr>))"

text \<open>\<^verbatim>\<open>values.append(value)\<close> and \<^verbatim>\<open>values.pop()\<close>; the latter raises on an empty list.\<close>

definition list_append :: "addr \<Rightarrow> pyval \<Rightarrow> dynvar \<Rightarrow> dynvar" where
  "list_append a v s = s\<lparr>heap := (heap s)(a := heap s a @ [v])\<rparr>"

definition list_pop :: "addr \<Rightarrow> dynvar \<Rightarrow> pyerr + dynvar" where
  "list_pop a s =
     (if heap s a = [] then Inl IndexError
      else Inr (s\<lparr>heap := (heap s)(a := butlast (heap s a))\<rparr>))"

text \<open>\<^verbatim>\<open>get(self)\<close>: \<^verbatim>\<open>self._values()[-1]\<close>.\<close>

definition get :: "tid \<Rightarrow> dynvar \<Rightarrow> (pyerr + pyval) \<times> dynvar" where
  "get t s =
     (case dv_values t s of
        (a, s1) \<Rightarrow> (if heap s1 a = [] then Inl IndexError else Inr (last (heap s1 a)), s1))"

text \<open>
  \<^verbatim>\<open>bind(self, value)\<close> is a generator under \<^verbatim>\<open>contextlib.contextmanager\<close>. Entering
  the \<^verbatim>\<open>with\<close> block runs it up to \<^verbatim>\<open>yield\<close>: \<^verbatim>\<open>values = self._values()\<close>, then
  \<^verbatim>\<open>values.append(value)\<close>. Leaving the block, by its end or by an exception, resumes
  it in the \<^verbatim>\<open>finally\<close> clause: \<^verbatim>\<open>values.pop()\<close>, on the list the local variable
  \<^verbatim>\<open>values\<close> refers to.
\<close>

definition bind_enter :: "tid \<Rightarrow> pyval \<Rightarrow> dynvar \<Rightarrow> addr \<times> dynvar" where
  "bind_enter t v s = (case dv_values t s of (a, s1) \<Rightarrow> (a, list_append a v s1))"

definition bind_exit :: "addr \<Rightarrow> dynvar \<Rightarrow> pyerr + dynvar" where
  "bind_exit a s = list_pop a s"

text \<open>
  The code that runs on a thread and uses the variable: it reads it, binds it around a
  block, raises, and catches. \<open>exec\<close> gives the exception that leaves the code, if
  any, the values that the \<^verbatim>\<open>get\<close> calls returned, the states after each operation
  on the variable, and the last state. An exception raised by \<^verbatim>\<open>values.pop()\<close>
  replaces the one that was leaving the block; \<open>Try body handler\<close> is
  \<^verbatim>\<open>try: body / except Exception: handler\<close>.
\<close>

datatype cmd = Get | Bind pyval "cmd list" | Raise string | Try "cmd list" "cmd list"

fun exec :: "tid \<Rightarrow> cmd \<Rightarrow> dynvar \<Rightarrow> pyerr option \<times> pyval list \<times> dynvar list \<times> dynvar"
and exec_list :: "tid \<Rightarrow> cmd list \<Rightarrow> dynvar \<Rightarrow> pyerr option \<times> pyval list \<times> dynvar list \<times> dynvar"
where
  "exec t Get s =
     (case get t s of
        (Inl e, s1) \<Rightarrow> (Some e, [], [s1], s1)
      | (Inr v, s1) \<Rightarrow> (None, [v], [s1], s1))"
| "exec t (Raise msg) s = (Some (Exc msg), [], [], s)"
| "exec t (Bind v body) s =
     (case bind_enter t v s of
        (a, s1) \<Rightarrow>
          (case exec_list t body s1 of
             (r, obs, tr, s2) \<Rightarrow>
               (case bind_exit a s2 of
                  Inl e \<Rightarrow> (Some e, obs, s1 # tr, s2)
                | Inr s3 \<Rightarrow> (r, obs, s1 # tr @ [s3], s3))))"
| "exec t (Try body handler) s =
     (case exec_list t body s of
        (None, obs, tr, s1) \<Rightarrow> (None, obs, tr, s1)
      | (Some e, obs, tr, s1) \<Rightarrow>
          (case exec_list t handler s1 of
             (r, obs2, tr2, s2) \<Rightarrow> (r, obs @ obs2, tr @ tr2, s2)))"
| "exec_list t [] s = (None, [], [], s)"
| "exec_list t (c # cs) s =
     (case exec t c s of
        (Some e, obs, tr, s1) \<Rightarrow> (Some e, obs, tr, s1)
      | (None, obs, tr, s1) \<Rightarrow>
          (case exec_list t cs s1 of
             (r, obs2, tr2, s2) \<Rightarrow> (r, obs @ obs2, tr @ tr2, s2)))"

text \<open>
  The binding stack of a thread: its list, or \<^verbatim>\<open>[None]\<close> as long as the list is not
  yet made. The invariant: every thread's list is at an allocated address, is not empty
  and has the sentinel \<^verbatim>\<open>None\<close> at the bottom, and no two threads share a list.
\<close>

definition stack :: "tid \<Rightarrow> dynvar \<Rightarrow> pyval list" where
  "stack t s = (case local_values s t of None \<Rightarrow> [PNone] | Some a \<Rightarrow> heap s a)"

definition dv_wf :: "dynvar \<Rightarrow> bool" where
  "dv_wf s \<longleftrightarrow>
     (\<forall>t a. local_values s t = Some a \<longrightarrow> a < next_addr s \<and> heap s a \<noteq> [] \<and> hd (heap s a) = PNone) \<and>
     inj_on (local_values s) (dom (local_values s))"

text \<open>
  What an operation of thread \<open>t\<close> may do to the state: keep the invariant, leave every
  other thread's stack alone, and keep every list where it is. A run of thread \<open>t\<close> is
  in order when that holds of its last state and of every state on the way, the stack of
  \<open>t\<close> is at the end what it was at the start and is never shorter on the way, and
  \<^verbatim>\<open>pop\<close> or \<^verbatim>\<open>get\<close> never found a list empty.
\<close>

definition frame_ok :: "tid \<Rightarrow> dynvar \<Rightarrow> dynvar \<Rightarrow> bool" where
  "frame_ok t s s' \<longleftrightarrow>
     dv_wf s' \<and> (\<forall>u. u \<noteq> t \<longrightarrow> stack u s' = stack u s) \<and>
     (\<forall>u b. local_values s u = Some b \<longrightarrow> local_values s' u = Some b)"

definition run_ok :: "tid \<Rightarrow> dynvar \<Rightarrow> pyerr option \<Rightarrow> dynvar list \<Rightarrow> dynvar \<Rightarrow> bool" where
  "run_ok t s r tr s' \<longleftrightarrow>
     frame_ok t s s' \<and> stack t s' = stack t s \<and> r \<noteq> Some IndexError \<and>
     (\<forall>x \<in> set tr. frame_ok t s x \<and> prefix (stack t s) (stack t x))"

subsection \<open>Threads\<close>

text \<open>
  Several threads: each operation on the variable is one step of one thread, and the
  steps of the threads come in any order. \<open>open_scopes\<close> holds, for each thread, the
  lists that the \<^verbatim>\<open>bind\<close> generators it has entered and not yet left refer to, the
  innermost first; leaving with no block open does nothing. A run gives the result of
  every \<^verbatim>\<open>get\<close>, and of a \<^verbatim>\<open>pop\<close> that raised, with the thread it belongs to.
\<close>

datatype op = OpGet | OpEnter pyval | OpExit

record sys =
  dv :: dynvar
  open_scopes :: "tid \<Rightarrow> addr list"

fun step :: "tid \<times> op \<Rightarrow> sys \<Rightarrow> (pyerr + pyval) option \<times> sys" where
  "step (t, OpGet) \<sigma> =
     (case get t (dv \<sigma>) of (r, s1) \<Rightarrow> (Some r, \<sigma>\<lparr>dv := s1\<rparr>))"
| "step (t, OpEnter v) \<sigma> =
     (case bind_enter t v (dv \<sigma>) of
        (a, s1) \<Rightarrow> (None, \<sigma>\<lparr>dv := s1, open_scopes := (open_scopes \<sigma>)(t := a # open_scopes \<sigma> t)\<rparr>))"
| "step (t, OpExit) \<sigma> =
     (case open_scopes \<sigma> t of
        [] \<Rightarrow> (None, \<sigma>)
      | a # rest \<Rightarrow>
          (case bind_exit a (dv \<sigma>) of
             Inl e \<Rightarrow> (Some (Inl e), \<sigma>\<lparr>open_scopes := (open_scopes \<sigma>)(t := rest)\<rparr>)
           | Inr s3 \<Rightarrow> (None, \<sigma>\<lparr>dv := s3, open_scopes := (open_scopes \<sigma>)(t := rest)\<rparr>)))"

fun run :: "(tid \<times> op) list \<Rightarrow> sys \<Rightarrow> (tid \<times> (pyerr + pyval)) list" where
  "run [] \<sigma> = []"
| "run ((t, x) # rest) \<sigma> =
     (case step (t, x) \<sigma> of
        (None, \<sigma>') \<Rightarrow> run rest \<sigma>'
      | (Some r, \<sigma>') \<Rightarrow> (t, r) # run rest \<sigma>')"

text \<open>
  The invariant of the threads: the variable's own, every open block of a thread holds
  that thread's list, and a thread's stack is deeper than its open blocks are many.
\<close>

definition sys_init :: sys where
  "sys_init = \<lparr>dv = DynamicVar_init, open_scopes = (\<lambda>t. [])\<rparr>"

definition sys_wf :: "sys \<Rightarrow> bool" where
  "sys_wf \<sigma> \<longleftrightarrow>
     dv_wf (dv \<sigma>) \<and>
     (\<forall>t a. a \<in> set (open_scopes \<sigma> t) \<longrightarrow> local_values (dv \<sigma>) t = Some a) \<and>
     (\<forall>t. length (open_scopes \<sigma> t) < length (stack t (dv \<sigma>)))"

text \<open>
  A variable of one thread alone, for comparison: a stack and the number of open blocks.
  \<open>view\<close> is what a thread has of the shared state.
\<close>

type_synonym private_stack = "pyval list \<times> nat"

fun private_step :: "op \<Rightarrow> private_stack \<Rightarrow> (pyerr + pyval) option \<times> private_stack" where
  "private_step OpGet (stk, n) = (Some (Inr (last stk)), (stk, n))"
| "private_step (OpEnter v) (stk, n) = (None, (stk @ [v], Suc n))"
| "private_step OpExit (stk, n) = (None, if n = 0 then (stk, 0) else (butlast stk, n - 1))"

fun private_run :: "op list \<Rightarrow> private_stack \<Rightarrow> (pyerr + pyval) list" where
  "private_run [] p = []"
| "private_run (x # rest) p =
     (case private_step x p of
        (None, p') \<Rightarrow> private_run rest p'
      | (Some r, p') \<Rightarrow> r # private_run rest p')"

definition view :: "tid \<Rightarrow> sys \<Rightarrow> private_stack" where
  "view t \<sigma> = (stack t (dv \<sigma>), length (open_scopes \<sigma> t))"

text \<open>Two threads, \<open>0\<close> and \<open>1\<close>, binding and reading in turn.\<close>

definition example_schedule :: "(tid \<times> op) list" where
  "example_schedule =
     [(0, OpEnter (PInt 1)), (1, OpGet), (0, OpGet), (1, OpEnter (PInt 7)), (1, OpGet),
      (0, OpExit), (1, OpGet), (1, OpExit), (1, OpGet), (0, OpGet)]"

section \<open>Notions used in the statements\<close>





section \<open>Example functions\<close>

text \<open>
  How Python binds the arguments of a call to the parameters \<open>names\<close> of a function
  with the defaults \<open>dflts\<close> (no \<^verbatim>\<open>*args\<close>, no \<^verbatim>\<open>**kwargs\<close>): the values of the
  parameters in order, or the \<^verbatim>\<open>TypeError\<close> of a call that does not fit.
\<close>

definition bind_arguments ::
    "string list \<Rightarrow> pyval list \<Rightarrow> pyval list \<Rightarrow> (string \<times> pyval) list \<Rightarrow> pyerr + pyval list" where
  "bind_arguments names dflts posargs kwargs =
     (if length names < length posargs then Inl TypeError
      else if list_ex (\<lambda>k. k \<notin> set names \<or> k \<in> set (take (length posargs) names))
                (map fst kwargs)
      then Inl TypeError
      else (let bound = dict_of (zip (drop (length names - length dflts) names) dflts) ++
                        dict_of (zip names posargs) ++ dict_of kwargs
            in if list_ex (\<lambda>n. bound n = None) names then Inl TypeError
               else Inr (map (\<lambda>n. the (bound n)) names)))"

text \<open>
  \<^verbatim>\<open>def square(x): calls += 1; return x * x\<close>, \<^verbatim>\<open>def add(x, y=2): calls += 1;
  return x + y\<close> and \<^verbatim>\<open>def fail(x): calls += 1; raise ValueError\<close>. The world is the
  counter \<^verbatim>\<open>calls\<close>: the number of times the body has run.
\<close>

definition square_fn :: "nat pyfunc" where
  "square_fn = \<lparr>fn_name = ''square'', co_varnames = [''x''], co_argcount = 1,
     fn_defaults = [],
     fn_body = (\<lambda>posargs kwargs calls.
       (case bind_arguments [''x''] [] posargs kwargs of
          Inl e \<Rightarrow> (Inl e, calls)
        | Inr [PInt x] \<Rightarrow> (Inr (PInt (x * x)), Suc calls)
        | Inr _ \<Rightarrow> (Inl TypeError, Suc calls)))\<rparr>"


definition fail_fn :: "nat pyfunc" where
  "fail_fn = \<lparr>fn_name = ''fail'', co_varnames = [''x''], co_argcount = 1,
     fn_defaults = [],
     fn_body = (\<lambda>posargs kwargs calls.
       (case bind_arguments [''x''] [] posargs kwargs of
          Inl e \<Rightarrow> (Inl e, calls)
        | Inr _ \<Rightarrow> (Inl (Exc ''ValueError''), Suc calls)))\<rparr>"

text \<open>The closures that wrapping these functions builds, and the state of a new wrapper.\<close>

definition new_state :: memo_state where
  "new_state = \<lparr>memoized = Map.empty, shared_dict = Map.empty\<rparr>"



definition fail_closure :: "nat memo_closure" where
  "fail_closure = \<lparr>key_program = Name ''x'', argnames = [''x''], defaults = [],
     pos_and_arg_tuples = [(0, ''x'')], wrapped = fail_fn\<rparr>"





section \<open>Properties of AnnotatingDecorator\<close>

lemma decorate_all_absent:
  "name \<notin> fn_name ` snd ` set regs \<Longrightarrow> decorate_all regs lookup name = lookup name"
  by (induction regs lookup rule: decorate_all.induct)
     (auto simp: AnnotatingDecorator_call_def decorate_def)

text \<open>
  C7. Registry round trip: \<^verbatim>\<open>decorator(v)(f)\<close> returns \<^verbatim>\<open>f\<close> itself and leaves
  \<^verbatim>\<open>lookup[f.__name__] == v\<close>; every other name keeps its entry; a later registration
  of a function of the same name replaces the value.
\<close>

theorem annotating_decorator_round_trip:
  "fst (AnnotatingDecorator_call v f lookup) = f \<and>
   registry_lookup (snd (AnnotatingDecorator_call v f lookup)) (fn_name f) = Some v \<and>
   (\<forall>n. n = fn_name f \<or>
        registry_lookup (snd (AnnotatingDecorator_call v f lookup)) n = registry_lookup lookup n) \<and>
   registry_lookup
     (snd (AnnotatingDecorator_call v' (g\<lparr>fn_name := fn_name f\<rparr>)
        (snd (AnnotatingDecorator_call v f lookup)))) (fn_name f) = Some v'"
  by (simp add: AnnotatingDecorator_call_def decorate_def registry_lookup_def)

text \<open>
  C8. A name that no registered function bears is absent from the registry: the query
  returns \<open>None\<close>, the explicit not-found result, whatever was registered before.
\<close>

theorem unregistered_name_is_absent:
  "name \<notin> fn_name ` snd ` set regs \<Longrightarrow>
   registry_lookup (decorate_all regs AnnotatingDecorator_init) name = None"
  by (simp add: decorate_all_absent registry_lookup_def AnnotatingDecorator_init_def)

theorem unregistered_name_is_absent_witness:
  "''cube'' \<notin> fn_name ` snd ` set [(PStr ''tag'', square_fn)] \<and>
   registry_lookup (decorate_all [(PStr ''tag'', square_fn)] AnnotatingDecorator_init) ''cube''
     = None \<and>
   registry_lookup (decorate_all [(PStr ''tag'', square_fn)] AnnotatingDecorator_init) ''square''
     = Some (PStr ''tag'')"
proof -
  have h: "''cube'' \<notin> fn_name ` snd ` set [(PStr ''tag'', square_fn)]"
    by (simp add: square_fn_def)
  have "registry_lookup (decorate_all [(PStr ''tag'', square_fn)] AnnotatingDecorator_init)
      ''square'' = Some (PStr ''tag'')"
    by (simp add: registry_lookup_def AnnotatingDecorator_call_def decorate_def square_fn_def)
  with h unregistered_name_is_absent [OF h] show ?thesis by simp
qed

section \<open>Properties of the key language\<close>

lemma not_ident_punct [simp]:
  "\<not> ident_char CHR ''(''" "\<not> ident_char CHR '')''" "\<not> ident_char CHR '',''" "\<not> ident_char CHR '' ''"
  by (simp_all add: ident_char_def ident_start_def)






section \<open>Properties of memoize\<close>



lemma fill_shared_dict_add:
  "\<exists>r M. \<forall>d. fill_shared_dict ts p d = (r, d ++ M)"
proof (induction ts)
  case Nil
  have "\<forall>d. fill_shared_dict [] p d = (None, d ++ Map.empty)" by simp
  then show ?case by blast
next
  case (Cons t ts)
  obtain pos arg where t: "t = (pos, arg)" by (cases t)
  from Cons obtain r M where rm: "\<And>d. fill_shared_dict ts p d = (r, d ++ M)" by blast
  show ?case
  proof (cases "pos < length p")
    case True
    have "\<forall>d. fill_shared_dict (t # ts) p d = (r, d ++ ([arg \<mapsto> p ! pos] ++ M))"
      using True by (simp add: t rm)
    then show ?thesis by blast
  next
    case False
    have "\<forall>d. fill_shared_dict (t # ts) p d = (Some IndexError, d ++ Map.empty)"
      using False by (simp add: t)
    then show ?thesis by blast
  qed
qed

lemma fill_shared_dict_idem:
  assumes "fill_shared_dict ts p d = (r, d')"
  shows "fill_shared_dict ts p d' = (r, d')"
proof -
  obtain r0 M where rm: "\<And>d. fill_shared_dict ts p d = (r0, d ++ M)"
    using fill_shared_dict_add by blast
  from assms rm [of d] have "r = r0" "d' = d ++ M" by simp_all
  moreover have "d ++ M ++ M = d ++ M"
    by (rule ext) (simp add: map_add_def split: option.splits)
  ultimately show ?thesis using rm [of "d ++ M"] by simp
qed


lemma derive_key_idem:
  assumes "derive_key bi c s p k = (r, s1)"
  shows "derive_key bi c (s1\<lparr>memoized := m\<rparr>) p k = (r, s1\<lparr>memoized := m\<rparr>)"
proof (cases "k \<noteq> [] \<or> defaults c \<noteq> []")
  case True
  with assms show ?thesis by (auto simp: derive_key_def)
next
  case False
  obtain e d where f: "fill_shared_dict (pos_and_arg_tuples c) p (shared_dict s) = (e, d)"
    by (cases "fill_shared_dict (pos_and_arg_tuples c) p (shared_dict s)")
  from fill_shared_dict_idem [OF f]
  have f': "fill_shared_dict (pos_and_arg_tuples c) p d = (e, d)" .
  from assms False f have "shared_dict s1 = d"
    by (auto simp: derive_key_def split: option.splits)
  with assms False f f' show ?thesis
    by (auto simp: derive_key_def split: option.splits)
qed

lemma derive_key_idem':
  "derive_key bi c s p k = (r, s1) \<Longrightarrow> derive_key bi c s1 p k = (r, s1)"
  using derive_key_idem [of bi c s p k r s1 "memoized s1"] by simp















subsection \<open>The example functions, wrapped and called\<close>

lemmas lex_defs = py_compile_def flush_def is_identifier_def ident_char_def ident_start_def
  reserved_words_def



lemma fail_wrap:
  "memoize_call ''x'' fail_fn = Inr (fail_closure, new_state)"
  by (simp add: memoize_call_def default_key_def arg_names_def fail_fn_def fail_closure_def
      new_state_def lex_defs numeral_2_eq_2)



lemma fail1: "call Map.empty fail_closure new_state (0::nat) [PInt 4] [] =
   (Inl (Exc ''ValueError''), \<lparr>memoized = Map.empty, shared_dict = [''x'' \<mapsto> PInt 4]\<rparr>, 1)"
  by (simp add: call_def derive_key_def fail_closure_def new_state_def fail_fn_def
      bind_arguments_def dict_of_def)









subsection \<open>Main properties of memoize\<close>













section \<open>Properties of DynamicVar\<close>

lemma frame_ok_refl: "dv_wf s \<Longrightarrow> frame_ok t s s"
  by (simp add: frame_ok_def)

lemma frame_ok_trans: "frame_ok t s s1 \<Longrightarrow> frame_ok t s1 s2 \<Longrightarrow> frame_ok t s s2"
  by (simp add: frame_ok_def)

lemma stack_nonempty: "dv_wf s \<Longrightarrow> stack t s \<noteq> []"
  by (auto simp: dv_wf_def stack_def split: option.splits)

lemma stack_sentinel: "dv_wf s \<Longrightarrow> hd (stack t s) = PNone"
  by (auto simp: dv_wf_def stack_def split: option.splits)

lemma other_addr: "dv_wf s \<Longrightarrow> local_values s t = Some a \<Longrightarrow> local_values s u = Some b \<Longrightarrow> u \<noteq> t \<Longrightarrow> b \<noteq> a"
  by (auto simp: dv_wf_def inj_on_def dom_def)

lemma dv_values_props:
  assumes "dv_wf s" "dv_values t s = (a, s1)"
  shows "frame_ok t s s1" "local_values s1 t = Some a" "stack t s1 = stack t s"
proof -
  have "frame_ok t s s1 \<and> local_values s1 t = Some a \<and> stack t s1 = stack t s"
  proof (cases "local_values s t")
    case None
    with assms(2) have s1: "s1 = s\<lparr>heap := (heap s)(next_addr s := [PNone]),
             local_values := (local_values s)(t \<mapsto> next_addr s),
             next_addr := Suc (next_addr s)\<rparr>" and a: "a = next_addr s"
      by (auto simp: dv_values_def)
    from assms(1) have old: "\<And>u b. local_values s u = Some b \<Longrightarrow> b < next_addr s"
      by (simp add: dv_wf_def)
    have inj: "inj_on ((local_values s)(t \<mapsto> next_addr s)) (dom ((local_values s)(t \<mapsto> next_addr s)))"
    proof (rule inj_onI)
      fix x y
      assume x: "x \<in> dom ((local_values s)(t \<mapsto> next_addr s))"
        and y: "y \<in> dom ((local_values s)(t \<mapsto> next_addr s))"
        and eq: "((local_values s)(t \<mapsto> next_addr s)) x = ((local_values s)(t \<mapsto> next_addr s)) y"
      show "x = y"
      proof (cases "x = t"; cases "y = t")
        assume "x \<noteq> t" "y \<noteq> t"
        with x y eq assms(1) show ?thesis by (auto simp: dv_wf_def inj_on_def dom_def)
      next
        assume "x = t" "y \<noteq> t"
        with y eq old [of y "next_addr s"] show ?thesis by auto
      next
        assume "x \<noteq> t" "y = t"
        with x eq old [of x "next_addr s"] show ?thesis by auto
      qed simp
    qed
    have wf1: "dv_wf s1"
      unfolding dv_wf_def
    proof (intro conjI allI impI)
      fix u b assume "local_values s1 u = Some b"
      then have cases: "u = t \<and> b = next_addr s \<or> u \<noteq> t \<and> local_values s u = Some b"
        by (auto simp: s1 split: if_splits)
      then show "b < next_addr s1"
        using old [of u b] by (auto simp: s1)
      from cases show "heap s1 b \<noteq> []"
        using old [of u b] assms(1) by (auto simp: s1 dv_wf_def)
      from cases show "hd (heap s1 b) = PNone"
        using old [of u b] assms(1) by (auto simp: s1 dv_wf_def)
    next
      show "inj_on (local_values s1) (dom (local_values s1))" using inj by (simp add: s1)
    qed
    have others: "stack u s1 = stack u s" if "u \<noteq> t" for u
      using that old [of u] by (auto simp: stack_def s1 split: option.splits)
    have keep: "local_values s1 u = Some b" if "local_values s u = Some b" for u b
      using that None by (auto simp: s1)
    from wf1 others keep have "frame_ok t s s1" by (simp add: frame_ok_def)
    moreover have "local_values s1 t = Some a" by (simp add: s1 a)
    moreover have "stack t s1 = stack t s" using None by (simp add: stack_def s1)
    ultimately show ?thesis by simp
  next
    case (Some b)
    with assms show ?thesis by (auto simp: dv_values_def frame_ok_def)
  qed
  then show "frame_ok t s s1" "local_values s1 t = Some a" "stack t s1 = stack t s"
    by simp_all
qed

lemma list_append_props:
  assumes "dv_wf s" "local_values s t = Some a"
  shows "frame_ok t s (list_append a v s)" "stack t (list_append a v s) = stack t s @ [v]"
proof -
  from assms have ne: "heap s a \<noteq> []" by (simp add: dv_wf_def)
  have wf1: "dv_wf (list_append a v s)"
    using assms(1) ne by (auto simp: dv_wf_def list_append_def)
  have others: "stack u (list_append a v s) = stack u s" if "u \<noteq> t" for u
    using that other_addr [OF assms, of u]
    by (auto simp: stack_def list_append_def split: option.splits)
  from wf1 others show "frame_ok t s (list_append a v s)"
    by (simp add: frame_ok_def list_append_def)
  show "stack t (list_append a v s) = stack t s @ [v]"
    using assms(2) by (simp add: stack_def list_append_def)
qed

lemma list_pop_props:
  assumes "dv_wf s" "local_values s t = Some a" "2 \<le> length (stack t s)"
  obtains s3 where "list_pop a s = Inr s3" "frame_ok t s s3" "stack t s3 = butlast (stack t s)"
proof -
  from assms(2,3) have len: "2 \<le> length (heap s a)" by (simp add: stack_def)
  then have ne: "heap s a \<noteq> []" by auto
  define s3 where "s3 = s\<lparr>heap := (heap s)(a := butlast (heap s a))\<rparr>"
  have pop: "list_pop a s = Inr s3" using ne by (simp add: list_pop_def s3_def)
  from len have bl: "butlast (heap s a) \<noteq> []" "hd (butlast (heap s a)) = hd (heap s a)"
    by (cases "heap s a"; cases "tl (heap s a)"; auto)+
  have wf3: "dv_wf s3"
    using assms(1) bl by (auto simp: dv_wf_def s3_def)
  have others: "stack u s3 = stack u s" if "u \<noteq> t" for u
    using that other_addr [OF assms(1,2), of u]
    by (auto simp: stack_def s3_def split: option.splits)
  have "frame_ok t s s3" using wf3 others by (simp add: frame_ok_def s3_def)
  moreover have "stack t s3 = butlast (stack t s)" using assms(2) by (simp add: stack_def s3_def)
  ultimately show thesis using pop that by blast
qed

lemma get_props:
  assumes "dv_wf s"
  obtains s1 where "get t s = (Inr (last (stack t s)), s1)" "frame_ok t s s1"
    "stack t s1 = stack t s"
proof -
  obtain a s1 where v: "dv_values t s = (a, s1)" by (cases "dv_values t s")
  note p = dv_values_props [OF assms v]
  from p(1) have "dv_wf s1" by (simp add: frame_ok_def)
  from stack_nonempty [OF this, of t] p(2) have "heap s1 a \<noteq> []" by (simp add: stack_def)
  moreover from p(2,3) have "heap s1 a = stack t s" by (simp add: stack_def)
  ultimately have "get t s = (Inr (last (stack t s)), s1)" using v by (simp add: get_def)
  with p that show thesis by blast
qed

lemma bind_enter_props:
  assumes "dv_wf s" "bind_enter t v s = (a, s1)"
  shows "frame_ok t s s1" "local_values s1 t = Some a" "stack t s1 = stack t s @ [v]"
proof -
  obtain s0 where v: "dv_values t s = (a, s0)" and s1: "s1 = list_append a v s0"
    using assms(2) by (auto simp: bind_enter_def split: prod.splits)
  note p = dv_values_props [OF assms(1) v]
  from p(1) have wf0: "dv_wf s0" by (simp add: frame_ok_def)
  note q = list_append_props [OF wf0 p(2), of v]
  from p(1) q(1) show "frame_ok t s s1" unfolding s1 by (rule frame_ok_trans)
  show "local_values s1 t = Some a" using p(2) by (simp add: s1 list_append_def)
  show "stack t s1 = stack t s @ [v]" using q(2) p(3) by (simp add: s1)
qed

lemma run_ok_skip: "dv_wf s \<Longrightarrow> r \<noteq> Some IndexError \<Longrightarrow> run_ok t s r [] s"
  by (simp add: run_ok_def frame_ok_refl)

lemma run_ok_seq:
  assumes "run_ok t s r1 tr1 s1" "run_ok t s1 r tr2 s2"
  shows "run_ok t s r (tr1 @ tr2) s2"
proof -
  from assms have f: "frame_ok t s s1" "frame_ok t s1 s2" and st: "stack t s1 = stack t s"
    "stack t s2 = stack t s1" and r: "r \<noteq> Some IndexError"
    by (simp_all add: run_ok_def)
  have "frame_ok t s x \<and> prefix (stack t s) (stack t x)" if "x \<in> set (tr1 @ tr2)" for x
  proof (cases "x \<in> set tr1")
    case True
    with assms(1) show ?thesis by (simp add: run_ok_def)
  next
    case False
    with that have "x \<in> set tr2" by simp
    with assms(2) have "frame_ok t s1 x" "prefix (stack t s1) (stack t x)"
      by (simp_all add: run_ok_def)
    with f(1) st show ?thesis using frame_ok_trans [of t s s1 x] by simp
  qed
  moreover from f have "frame_ok t s s2" by (rule frame_ok_trans)
  ultimately show ?thesis using st r unfolding run_ok_def by simp
qed

lemma run_ok_get:
  assumes "dv_wf s"
  obtains s1 where "get t s = (Inr (last (stack t s)), s1)" "run_ok t s None [s1] s1"
proof -
  from get_props [OF assms, of t] obtain s1 where g: "get t s = (Inr (last (stack t s)), s1)"
    and f: "frame_ok t s s1" and st: "stack t s1 = stack t s"
    by blast
  from f st have "run_ok t s None [s1] s1" by (simp add: run_ok_def)
  with g that show thesis by blast
qed

lemma run_ok_bind:
  assumes dv_wf: "dv_wf s" and enter: "bind_enter t v s = (a, s1)"
    and body: "run_ok t s1 r tr s2"
  obtains s3 where "bind_exit a s2 = Inr s3" "run_ok t s r (s1 # tr @ [s3]) s3"
    "stack t s1 = stack t s @ [v]" "stack t s2 = stack t s @ [v]"
proof -
  note e = bind_enter_props [OF dv_wf enter]
  from body have f2: "frame_ok t s1 s2" and st2: "stack t s2 = stack t s1"
    and r: "r \<noteq> Some IndexError"
    and tr: "\<And>x. x \<in> set tr \<Longrightarrow> frame_ok t s1 x \<and> prefix (stack t s1) (stack t x)"
    by (simp_all add: run_ok_def)
  from f2 have wf2: "dv_wf s2" by (simp add: frame_ok_def)
  from f2 e(2) have loc: "local_values s2 t = Some a" by (simp add: frame_ok_def)
  from stack_nonempty [OF dv_wf, of t] st2 e(3) have len: "2 \<le> length (stack t s2)"
    by (cases "stack t s") auto
  from list_pop_props [OF wf2 loc len] obtain s3 where pop: "list_pop a s2 = Inr s3"
    and f3: "frame_ok t s2 s3" and st3: "stack t s3 = butlast (stack t s2)"
    by blast
  from st3 st2 e(3) have restored: "stack t s3 = stack t s" by simp
  from e(1) f2 f3 have fs3: "frame_ok t s s3" using frame_ok_trans by blast
  have "frame_ok t s x \<and> prefix (stack t s) (stack t x)" if "x \<in> set (s1 # tr @ [s3])" for x
  proof -
    from that consider "x = s1" | "x \<in> set tr" | "x = s3" by auto
    then show ?thesis
    proof cases
      case 1
      with e(1,3) show ?thesis by simp
    next
      case 2
      from tr [OF 2] have "frame_ok t s1 x" "prefix (stack t s @ [v]) (stack t x)"
        by (simp_all add: e(3))
      with e(1) show ?thesis
        using frame_ok_trans [of t s s1 x] append_prefixD [of "stack t s" "[v]" "stack t x"]
        by simp
    next
      case 3
      with fs3 restored show ?thesis by simp
    qed
  qed
  with fs3 restored r have "run_ok t s r (s1 # tr @ [s3]) s3" unfolding run_ok_def by blast
  moreover from st2 e(3) have "stack t s2 = stack t s @ [v]" by simp
  ultimately show thesis using pop e(3) that by (simp add: bind_exit_def)
qed

lemma exec_props_aux:
  "dv_wf s \<longrightarrow> (\<forall>r obs tr s'. exec t c s = (r, obs, tr, s') \<longrightarrow> run_ok t s r tr s')"
  "dv_wf s \<longrightarrow> (\<forall>r obs tr s'. exec_list t cs s = (r, obs, tr, s') \<longrightarrow> run_ok t s r tr s')"
proof (induction t c s and t cs s rule: exec_exec_list.induct)
  case (1 t s)
  show ?case
  proof (intro impI allI)
    fix r obs tr s' assume dv_wf: "dv_wf s" and ex: "exec t Get s = (r, obs, tr, s')"
    from run_ok_get [OF dv_wf, of t] obtain s1 where "get t s = (Inr (last (stack t s)), s1)"
      "run_ok t s None [s1] s1" by blast
    with ex show "run_ok t s r tr s'" by auto
  qed
next
  case (2 t msg s)
  show ?case by (auto intro: run_ok_skip)
next
  case (3 t v body s)
  show ?case
  proof (intro impI allI)
    fix r obs tr s' assume dv_wf: "dv_wf s" and ex: "exec t (Bind v body) s = (r, obs, tr, s')"
    obtain a s1 where enter: "bind_enter t v s = (a, s1)" by (cases "bind_enter t v s")
    obtain r2 obs2 tr2 s2 where body: "exec_list t body s1 = (r2, obs2, tr2, s2)"
      by (cases "exec_list t body s1")
    from bind_enter_props(1) [OF dv_wf enter] have "dv_wf s1" by (simp add: frame_ok_def)
    with 3 [OF enter [symmetric]] body have "run_ok t s1 r2 tr2 s2" by blast
    from run_ok_bind [OF dv_wf enter this] obtain s3 where "bind_exit a s2 = Inr s3"
      "run_ok t s r2 (s1 # tr2 @ [s3]) s3" by blast
    with ex enter body show "run_ok t s r tr s'" by auto
  qed
next
  case (4 t body handler s)
  show ?case
  proof (intro impI allI)
    fix r obs tr s' assume dv_wf: "dv_wf s" and ex: "exec t (Try body handler) s = (r, obs, tr, s')"
    obtain r1 obs1 tr1 s1 where body: "exec_list t body s = (r1, obs1, tr1, s1)"
      by (cases "exec_list t body s")
    with 4(1) dv_wf have ok1: "run_ok t s r1 tr1 s1" by blast
    show "run_ok t s r tr s'"
    proof (cases r1)
      case None
      with ex body ok1 show ?thesis by auto
    next
      case (Some e)
      obtain r2 obs2 tr2 s2 where h: "exec_list t handler s1 = (r2, obs2, tr2, s2)"
        by (cases "exec_list t handler s1")
      from ok1 have "dv_wf s1" by (simp add: run_ok_def frame_ok_def)
      with 4(2) [OF body [symmetric] Some refl refl] h have "run_ok t s1 r2 tr2 s2" by blast
      from run_ok_seq [OF ok1 this] ex body Some h show ?thesis by auto
    qed
  qed
next
  case (5 t s)
  show ?case by (auto intro: run_ok_skip)
next
  case (6 t c cs s)
  show ?case
  proof (intro impI allI)
    fix r obs tr s' assume dv_wf: "dv_wf s" and ex: "exec_list t (c # cs) s = (r, obs, tr, s')"
    obtain r1 obs1 tr1 s1 where c: "exec t c s = (r1, obs1, tr1, s1)"
      by (cases "exec t c s")
    with 6(1) dv_wf have ok1: "run_ok t s r1 tr1 s1" by blast
    show "run_ok t s r tr s'"
    proof (cases r1)
      case (Some e)
      with ex c ok1 show ?thesis by auto
    next
      case None
      obtain r2 obs2 tr2 s2 where h: "exec_list t cs s1 = (r2, obs2, tr2, s2)"
        by (cases "exec_list t cs s1")
      from ok1 have "dv_wf s1" by (simp add: run_ok_def frame_ok_def)
      with 6(2) [OF c [symmetric] None refl refl] h have "run_ok t s1 r2 tr2 s2" by blast
      from run_ok_seq [OF ok1 this] ex c None h show ?thesis by auto
    qed
  qed
qed

lemma exec_run_ok: "dv_wf s \<Longrightarrow> exec t c s = (r, obs, tr, s') \<Longrightarrow> run_ok t s r tr s'"
  using exec_props_aux(1) by blast

lemma exec_list_run_ok: "dv_wf s \<Longrightarrow> exec_list t cs s = (r, obs, tr, s') \<Longrightarrow> run_ok t s r tr s'"
  using exec_props_aux(2) by blast

lemma run_ok_wf: "run_ok t s r tr s' \<Longrightarrow> dv_wf s'"
  by (simp add: run_ok_def frame_ok_def)

declare exec.simps [simp del] exec_list.simps [simp del]

lemma exec_Bind:
  "bind_enter t v s = (a, s1) \<Longrightarrow> exec_list t body s1 = (r, obs, tr, s2) \<Longrightarrow>
   bind_exit a s2 = Inr s3 \<Longrightarrow> exec t (Bind v body) s = (r, obs, s1 # tr @ [s3], s3)"
  by (simp add: exec.simps)

lemma exec_Try_caught:
  "exec_list t body s = (r, obs, tr, s1) \<Longrightarrow> exec t (Try body []) s = (None, obs, tr, s1)"
  by (cases r) (simp_all add: exec.simps exec_list.simps)

lemma exec_list_Cons:
  "exec t c s = (None, obs, tr, s1) \<Longrightarrow> exec_list t cs s1 = (r, obs2, tr2, s2) \<Longrightarrow>
   exec_list t (c # cs) s = (r, obs @ obs2, tr @ tr2, s2)"
  by (simp add: exec_list.simps)

lemma exec_list_single:
  "exec t c s = (r, obs, tr, s') \<Longrightarrow> exec_list t [c] s = (r, obs, tr, s')"
  by (cases r) (simp_all add: exec_list.simps)

lemma get_run_ok:
  assumes "dv_wf s"
  shows "get t s = (Inr (last (stack t s)), snd (get t s))"
    and "run_ok t s None [snd (get t s)] (snd (get t s))"
    and "dv_wf (snd (get t s))" and "stack t (snd (get t s)) = stack t s"
proof -
  from run_ok_get [OF assms, of t] obtain s1 where g: "get t s = (Inr (last (stack t s)), s1)"
    and ok: "run_ok t s None [s1] s1" by blast
  from g show "get t s = (Inr (last (stack t s)), snd (get t s))" by simp
  from g ok show ok': "run_ok t s None [snd (get t s)] (snd (get t s))" by simp
  from ok' show "dv_wf (snd (get t s))" "stack t (snd (get t s)) = stack t s"
    by (simp_all add: run_ok_def frame_ok_def)
qed

lemma exec_Get:
  assumes "dv_wf s"
  shows "exec t Get s = (None, [last (stack t s)], [snd (get t s)], snd (get t s))"
proof -
  from run_ok_get [OF assms, of t] obtain s1 where g: "get t s = (Inr (last (stack t s)), s1)"
    by blast
  then show ?thesis by (simp add: exec.simps)
qed

lemma exec_list_Get:
  assumes "dv_wf s" "exec_list t cs (snd (get t s)) = (r, obs, tr, s')"
  shows "exec_list t (Get # cs) s = (r, last (stack t s) # obs, snd (get t s) # tr, s')"
  using exec_list_Cons [OF exec_Get [OF assms(1)] assms(2)] by simp

lemma exec_list_Get_only:
  assumes "dv_wf s"
  shows "exec_list t [Get] s = (None, [last (stack t s)], [snd (get t s)], snd (get t s))"
  using exec_list_single [OF exec_Get [OF assms]] .

lemma exec_scope:
  assumes "dv_wf s"
  obtains r obs tr s' where "exec t (Bind v (Get # body)) s = (r, v # obs, tr, s')"
    "run_ok t s r tr s'"
proof -
  obtain a s1 where enter: "bind_enter t v s = (a, s1)" by (cases "bind_enter t v s")
  note e = bind_enter_props [OF assms enter]
  from e(1) have wf1: "dv_wf s1" by (simp add: frame_ok_def)
  define s1' where "s1' = snd (get t s1)"
  obtain r obs tr s2 where b: "exec_list t body s1' = (r, obs, tr, s2)"
    by (cases "exec_list t body s1'")
  from exec_list_Get [OF wf1, of t body r obs tr s2] b e(3)
  have all: "exec_list t (Get # body) s1 = (r, v # obs, s1' # tr, s2)"
    by (simp add: s1'_def)
  from exec_list_run_ok [OF wf1 all] have "run_ok t s1 r (s1' # tr) s2" .
  from run_ok_bind [OF assms enter this] obtain s3 where x: "bind_exit a s2 = Inr s3"
    and ok: "run_ok t s r (s1 # (s1' # tr) @ [s3]) s3" by blast
  from enter all x have "exec t (Bind v (Get # body)) s = (r, v # obs, s1 # (s1' # tr) @ [s3], s3)"
    by (rule exec_Bind)
  with ok that show thesis by blast
qed

lemma exec_try_scope:
  assumes "dv_wf s"
  obtains obs tr s' where "exec t (Try [Bind v (Get # body)] []) s = (None, v # obs, tr, s')"
    "run_ok t s None tr s'"
proof -
  from exec_scope [OF assms, of t v body] obtain r obs tr s'
    where b: "exec t (Bind v (Get # body)) s = (r, v # obs, tr, s')" and ok: "run_ok t s r tr s'"
    by blast
  from exec_list_single [OF b] have l: "exec_list t [Bind v (Get # body)] s = (r, v # obs, tr, s')" .
  have "exec t (Try [Bind v (Get # body)] []) s = (None, v # obs, tr, s')"
    using l by (rule exec_Try_caught)
  moreover from ok have "run_ok t s None tr s'" by (simp add: run_ok_def)
  ultimately show thesis using that by blast
qed

lemma exec_scope_then_get:
  assumes "dv_wf s"
  obtains obs tr s' where
    "exec_list t [Try [Bind v (Get # body)] [], Get] s = (None, v # obs @ [last (stack t s)], tr, s')"
    "run_ok t s None tr s'"
proof -
  from exec_try_scope [OF assms, of t v body] obtain obs tr s1
    where b: "exec t (Try [Bind v (Get # body)] []) s = (None, v # obs, tr, s1)"
      and ok: "run_ok t s None tr s1" by blast
  from ok have wf1: "dv_wf s1" and st: "stack t s1 = stack t s"
    by (simp_all add: run_ok_def frame_ok_def)
  define s2 where "s2 = snd (get t s1)"
  from exec_list_Get_only [OF wf1, of t] st
  have g: "exec_list t [Get] s1 = (None, [last (stack t s)], [s2], s2)" by (simp add: s2_def)
  from get_run_ok(2) [OF wf1, of t] have ok2: "run_ok t s1 None [s2] s2" by (simp add: s2_def)
  from exec_list_Cons [OF b g]
  have "exec_list t [Try [Bind v (Get # body)] [], Get] s =
      (None, v # obs @ [last (stack t s)], tr @ [s2], s2)" by simp
  moreover from run_ok_seq [OF ok ok2] have "run_ok t s None (tr @ [s2]) s2" .
  ultimately show thesis using that by blast
qed

lemma dv_wf_init: "dv_wf DynamicVar_init"
  by (simp add: dv_wf_def DynamicVar_init_def)

lemma stack_init: "stack t DynamicVar_init = [PNone]"
  by (simp add: stack_def DynamicVar_init_def)

lemmas dv_defs = get_def dv_values_def bind_enter_def bind_exit_def list_append_def
  list_pop_def DynamicVar_init_def stack_def exec.simps exec_list.simps

lemma nesting_run:
  "fst (snd (exec_list 0
      [Get, Bind (PInt 1) [Get, Try [Bind (PInt 2) [Get, Raise ''boom'', Get]] [], Get], Get]
      DynamicVar_init)) = [PNone, PInt 1, PInt 2, PInt 1, PNone]"
  by (simp add: dv_defs)

lemma raising_run:
  "exec_list 0 [Bind (PInt 1) [Raise ''boom'']] DynamicVar_init =
     (Some (Exc ''boom''), [],
      [\<lparr>local_values = [0 \<mapsto> 0], heap = (\<lambda>a. [])(0 := [PNone, PInt 1]), next_addr = 1\<rparr>,
       \<lparr>local_values = [0 \<mapsto> 0], heap = (\<lambda>a. [])(0 := [PNone]), next_addr = 1\<rparr>],
      \<lparr>local_values = [0 \<mapsto> 0], heap = (\<lambda>a. [])(0 := [PNone]), next_addr = 1\<rparr>)"
  by (simp add: dv_defs)

subsection \<open>Main properties of DynamicVar on one thread\<close>

text \<open>
  C4. In every state that keeps the invariant and on every thread, \<^verbatim>\<open>get()\<close> returns
  the top of the thread's stack. Inside \<^verbatim>\<open>bind(v)\<close> it returns \<open>v\<close>, and after the
  block it returns what it returned before, whether the block ended or raised (the code
  \<open>body\<close> after the \<^verbatim>\<open>get\<close> is arbitrary). With no binding active the top is the
  sentinel \<^verbatim>\<open>None\<close>, and the nested scenario reads \<^verbatim>\<open>None\<close>, \<open>v1\<close>, \<open>v2\<close>, what the
  inner block reads, \<open>v1\<close>, \<^verbatim>\<open>None\<close>.
\<close>

theorem dynamic_scope_nesting:
  assumes "dv_wf s"
  shows "fst (get t s) = Inr (last (stack t s)) \<and>
         (\<exists>obs tr s'. exec_list t [Try [Bind v (Get # body)] [], Get] s =
            (None, v # obs @ [last (stack t s)], tr, s') \<and> stack t s' = stack t s) \<and>
         (stack t s = [PNone] \<longrightarrow>
          (\<exists>obs tr s'.
             exec_list t [Get, Bind v1 [Get, Try [Bind v2 (Get # body)] [], Get], Get] s =
               (None, [PNone, v1, v2] @ obs @ [v1, PNone], tr, s') \<and>
             stack t s' = [PNone]))"
proof -
  from get_run_ok(1) [OF assms, of t] have A: "fst (get t s) = Inr (last (stack t s))"
    by (cases "get t s") simp
  from exec_scope_then_get [OF assms, of t v body] obtain obs tr s'
    where "exec_list t [Try [Bind v (Get # body)] [], Get] s =
            (None, v # obs @ [last (stack t s)], tr, s')" "run_ok t s None tr s'"
    by blast
  then have B: "\<exists>obs tr s'. exec_list t [Try [Bind v (Get # body)] [], Get] s =
            (None, v # obs @ [last (stack t s)], tr, s') \<and> stack t s' = stack t s"
    unfolding run_ok_def by blast
  have C: "\<exists>obs tr s'.
             exec_list t [Get, Bind v1 [Get, Try [Bind v2 (Get # body)] [], Get], Get] s =
               (None, [PNone, v1, v2] @ obs @ [v1, PNone], tr, s') \<and>
             stack t s' = [PNone]"
    if unbound: "stack t s = [PNone]"
  proof -
    define s0 where "s0 = snd (get t s)"
    from get_run_ok(3,4) [OF assms, of t] have wf0: "dv_wf s0" and st0: "stack t s0 = stack t s"
      by (simp_all add: s0_def)
    obtain a s1 where enter: "bind_enter t v1 s0 = (a, s1)" by (cases "bind_enter t v1 s0")
    note e = bind_enter_props [OF wf0 enter]
    from e(1) have wf1: "dv_wf s1" by (simp add: frame_ok_def)
    from e(3) st0 unbound have st1: "stack t s1 = [PNone, v1]" by simp
    define s2 where "s2 = snd (get t s1)"
    from get_run_ok(3,4) [OF wf1, of t] have wf2: "dv_wf s2" and st2: "stack t s2 = stack t s1"
      by (simp_all add: s2_def)
    from exec_scope_then_get [OF wf2, of t v2 body] obtain obs tr3 s3
      where inner: "exec_list t [Try [Bind v2 (Get # body)] [], Get] s2 =
          (None, v2 # obs @ [last (stack t s2)], tr3, s3)"
        and ok3: "run_ok t s2 None tr3 s3" by blast
    from exec_list_Get [OF wf1, of t _ None "v2 # obs @ [last (stack t s2)]" tr3 s3] inner st1 st2
    have outer_body: "exec_list t [Get, Try [Bind v2 (Get # body)] [], Get] s1 =
        (None, v1 # v2 # obs @ [v1], s2 # tr3, s3)" by (simp add: s2_def)
    from exec_list_run_ok [OF wf1 outer_body] have "run_ok t s1 None (s2 # tr3) s3" .
    from run_ok_bind [OF wf0 enter this] obtain s4 where x: "bind_exit a s3 = Inr s4"
      and ok4: "run_ok t s0 None (s1 # (s2 # tr3) @ [s4]) s4" by blast
    from enter outer_body x
    have outer: "exec t (Bind v1 [Get, Try [Bind v2 (Get # body)] [], Get]) s0 =
        (None, v1 # v2 # obs @ [v1], s1 # (s2 # tr3) @ [s4], s4)" by (rule exec_Bind)
    from ok4 have wf4: "dv_wf s4" and st4: "stack t s4 = stack t s0"
      by (simp_all add: run_ok_def frame_ok_def)
    define s5 where "s5 = snd (get t s4)"
    from exec_list_Get_only [OF wf4, of t] st4 st0 unbound
    have last_get: "exec_list t [Get] s4 = (None, [PNone], [s5], s5)" by (simp add: s5_def)
    from get_run_ok(4) [OF wf4, of t] have st5: "stack t s5 = stack t s4" by (simp add: s5_def)
    from outer last_get
    have rest: "exec_list t [Bind v1 [Get, Try [Bind v2 (Get # body)] [], Get], Get] s0 =
        (None, (v1 # v2 # obs @ [v1]) @ [PNone], (s1 # (s2 # tr3) @ [s4]) @ [s5], s5)"
      by (rule exec_list_Cons)
    from exec_list_Get [OF assms, of t _ None _ _ s5] rest unbound
    have "exec_list t [Get, Bind v1 [Get, Try [Bind v2 (Get # body)] [], Get], Get] s =
        (None, [PNone, v1, v2] @ obs @ [v1, PNone], s0 # (s1 # (s2 # tr3) @ [s4]) @ [s5], s5)"
      by (simp add: s0_def)
    moreover from st5 st4 st0 unbound have "stack t s5 = [PNone]" by simp
    ultimately show ?thesis by blast
  qed
  show ?thesis
  proof (intro conjI impI)
    show "fst (get t s) = Inr (last (stack t s))" by (rule A)
    show "\<exists>obs tr s'. exec_list t [Try [Bind v (Get # body)] [], Get] s =
            (None, v # obs @ [last (stack t s)], tr, s') \<and> stack t s' = stack t s"
      by (rule B)
    assume "stack t s = [PNone]"
    then show "\<exists>obs tr s'.
             exec_list t [Get, Bind v1 [Get, Try [Bind v2 (Get # body)] [], Get], Get] s =
               (None, [PNone, v1, v2] @ obs @ [v1, PNone], tr, s') \<and>
             stack t s' = [PNone]"
      by (rule C)
  qed
qed

theorem dynamic_scope_nesting_witness:
  "dv_wf DynamicVar_init \<and> stack 0 DynamicVar_init = [PNone] \<and>
   fst (get 0 DynamicVar_init) = Inr PNone \<and>
   (\<exists>obs tr s'.
      exec_list 0
        [Get, Bind (PInt 1) [Get, Try [Bind (PInt 2) [Get, Raise ''boom'', Get]] [], Get], Get]
        DynamicVar_init = (None, [PNone, PInt 1, PInt 2] @ obs @ [PInt 1, PNone], tr, s') \<and>
      stack 0 s' = [PNone]) \<and>
   fst (snd (exec_list 0
      [Get, Bind (PInt 1) [Get, Try [Bind (PInt 2) [Get, Raise ''boom'', Get]] [], Get], Get]
      DynamicVar_init)) = [PNone, PInt 1, PInt 2, PInt 1, PNone]"
proof -
  note n = dynamic_scope_nesting [OF dv_wf_init, of 0 "PInt 2" "[Raise ''boom'', Get]" "PInt 1"]
  from n have 1: "fst (get 0 DynamicVar_init) = Inr PNone" by (simp add: stack_init)
  from n [THEN conjunct2, THEN conjunct2] stack_init [of 0]
  have 2: "\<exists>obs tr s'.
      exec_list 0
        [Get, Bind (PInt 1) [Get, Try [Bind (PInt 2) [Get, Raise ''boom'', Get]] [], Get], Get]
        DynamicVar_init = (None, [PNone, PInt 1, PInt 2] @ obs @ [PInt 1, PNone], tr, s') \<and>
      stack 0 s' = [PNone]" by blast
  from dv_wf_init stack_init [of 0] 1 2 nesting_run show ?thesis by blast
qed

text \<open>
  C5. From a state that keeps the invariant, on every run of every code on a thread:
  every state on the way and the last one keep the invariant (each list is non-empty
  with the sentinel at the bottom), the thread's stack is never shorter than at the
  start and is the same at the end, and \<^verbatim>\<open>pop\<close> never finds the list empty. Entering
  \<^verbatim>\<open>bind(v)\<close> pushes exactly \<open>v\<close>; when the block is left, by its end or by an
  exception \<open>r\<close>, the stack is as it was on entry, and the pop gives back the stack from
  before the \<^verbatim>\<open>bind\<close>.
\<close>

theorem binding_stack_invariant:
  assumes "dv_wf s"
  shows "(\<forall>r obs tr s'. exec_list t prog s = (r, obs, tr, s') \<longrightarrow>
            dv_wf s' \<and> stack t s' = stack t s \<and> r \<noteq> Some IndexError \<and>
            (\<forall>x \<in> set tr. dv_wf x \<and> stack t x \<noteq> [] \<and> hd (stack t x) = PNone \<and>
                           prefix (stack t s) (stack t x))) \<and>
         (\<forall>v body a s1 r obs tr s2.
            bind_enter t v s = (a, s1) \<and> exec_list t body s1 = (r, obs, tr, s2) \<longrightarrow>
            stack t s1 = stack t s @ [v] \<and> stack t s2 = stack t s @ [v] \<and>
            (\<exists>s3. bind_exit a s2 = Inr s3 \<and> stack t s3 = stack t s \<and>
                  exec t (Bind v body) s = (r, obs, s1 # tr @ [s3], s3)))"
proof -
  have A: "dv_wf s' \<and> stack t s' = stack t s \<and> r \<noteq> Some IndexError \<and>
            (\<forall>x \<in> set tr. dv_wf x \<and> stack t x \<noteq> [] \<and> hd (stack t x) = PNone \<and>
                           prefix (stack t s) (stack t x))"
    if "exec_list t prog s = (r, obs, tr, s')" for r obs tr s'
  proof -
    from exec_list_run_ok [OF assms that] have ok: "run_ok t s r tr s'" .
    then have "dv_wf x" if "x \<in> set tr" for x using that by (simp add: run_ok_def frame_ok_def)
    with ok show ?thesis
      using stack_nonempty stack_sentinel by (auto simp: run_ok_def frame_ok_def)
  qed
  have B: "stack t s1 = stack t s @ [v] \<and> stack t s2 = stack t s @ [v] \<and>
            (\<exists>s3. bind_exit a s2 = Inr s3 \<and> stack t s3 = stack t s \<and>
                  exec t (Bind v body) s = (r, obs, s1 # tr @ [s3], s3))"
    if enter: "bind_enter t v s = (a, s1)" and body: "exec_list t body s1 = (r, obs, tr, s2)"
    for v body a s1 r obs tr s2
  proof -
    from bind_enter_props(1) [OF assms enter] have wf1: "dv_wf s1" by (simp add: frame_ok_def)
    from exec_list_run_ok [OF wf1 body] have "run_ok t s1 r tr s2" .
    from run_ok_bind [OF assms enter this] obtain s3 where x: "bind_exit a s2 = Inr s3"
      and ok: "run_ok t s r (s1 # tr @ [s3]) s3"
      and st: "stack t s1 = stack t s @ [v]" "stack t s2 = stack t s @ [v]" by blast
    from enter body x have "exec t (Bind v body) s = (r, obs, s1 # tr @ [s3], s3)"
      by (rule exec_Bind)
    with x ok st show ?thesis by (auto simp: run_ok_def)
  qed
  show ?thesis
  proof (intro conjI allI impI)
    fix r obs tr s' assume "exec_list t prog s = (r, obs, tr, s')"
    from A [OF this] show "dv_wf s'" "stack t s' = stack t s" "r \<noteq> Some IndexError"
      "\<forall>x \<in> set tr. dv_wf x \<and> stack t x \<noteq> [] \<and> hd (stack t x) = PNone \<and>
                           prefix (stack t s) (stack t x)"
      by simp_all
  next
    fix v body a s1 r obs tr s2
    assume "bind_enter t v s = (a, s1) \<and> exec_list t body s1 = (r, obs, tr, s2)"
    then have "bind_enter t v s = (a, s1)" "exec_list t body s1 = (r, obs, tr, s2)" by simp_all
    from B [OF this] show "stack t s1 = stack t s @ [v]" "stack t s2 = stack t s @ [v]"
      "\<exists>s3. bind_exit a s2 = Inr s3 \<and> stack t s3 = stack t s \<and>
                  exec t (Bind v body) s = (r, obs, s1 # tr @ [s3], s3)"
      by simp_all
  qed
qed

theorem binding_stack_invariant_witness:
  "dv_wf DynamicVar_init \<and>
   fst (exec_list 0 [Bind (PInt 1) [Raise ''boom'']] DynamicVar_init) = Some (Exc ''boom'') \<and>
   map (stack 0) (fst (snd (snd (exec_list 0 [Bind (PInt 1) [Raise ''boom'']] DynamicVar_init))))
     = [[PNone, PInt 1], [PNone]] \<and>
   stack 0 (snd (snd (snd (exec_list 0 [Bind (PInt 1) [Raise ''boom'']] DynamicVar_init))))
     = stack 0 DynamicVar_init \<and>
   dv_wf (snd (snd (snd (exec_list 0 [Bind (PInt 1) [Raise ''boom'']] DynamicVar_init))))"
proof -
  note i = binding_stack_invariant [OF dv_wf_init, of 0 "[Bind (PInt 1) [Raise ''boom'']]",
      THEN conjunct1, rule_format, OF raising_run]
  from i have 1: "dv_wf \<lparr>local_values = [0 \<mapsto> 0], heap = (\<lambda>a. [])(0 := [PNone]), next_addr = 1\<rparr>"
    and 2: "stack 0 \<lparr>local_values = [0 \<mapsto> 0], heap = (\<lambda>a. [])(0 := [PNone]), next_addr = 1\<rparr>
      = stack 0 DynamicVar_init"
    by simp_all
  have 3: "map (stack 0)
      [\<lparr>local_values = [0 \<mapsto> 0], heap = (\<lambda>a. [])(0 := [PNone, PInt 1]), next_addr = 1\<rparr>,
       \<lparr>local_values = [0 \<mapsto> 0], heap = (\<lambda>a. [])(0 := [PNone]), next_addr = 1\<rparr>]
      = [[PNone, PInt 1], [PNone]]"
    by (simp add: stack_def)
  from dv_wf_init 1 2 3 show ?thesis by (simp add: raising_run)
qed

subsection \<open>DynamicVar on several threads\<close>

lemma sys_wf_init: "sys_wf sys_init"
  by (simp add: sys_wf_def sys_init_def dv_wf_init stack_init)

lemma step_refines:
  assumes wf: "sys_wf \<sigma>" and st: "step (t, x) \<sigma> = (r, \<sigma>')"
  shows "sys_wf \<sigma>'" "private_step x (view t \<sigma>) = (r, view t \<sigma>')"
    "\<And>u. u \<noteq> t \<Longrightarrow> view u \<sigma>' = view u \<sigma>"
proof -
  from wf have dwf: "dv_wf (dv \<sigma>)"
    and own: "\<And>u a. a \<in> set (open_scopes \<sigma> u) \<Longrightarrow> local_values (dv \<sigma>) u = Some a"
    and depth: "\<And>u. length (open_scopes \<sigma> u) < length (stack u (dv \<sigma>))"
    by (simp_all add: sys_wf_def)
  have "sys_wf \<sigma>' \<and> private_step x (view t \<sigma>) = (r, view t \<sigma>') \<and>
        (\<forall>u. u \<noteq> t \<longrightarrow> view u \<sigma>' = view u \<sigma>)"
  proof (cases x)
    case OpGet
    from get_props [OF dwf, of t] obtain s1
      where g: "get t (dv \<sigma>) = (Inr (last (stack t (dv \<sigma>))), s1)"
        and f: "frame_ok t (dv \<sigma>) s1" and same: "stack t s1 = stack t (dv \<sigma>)" by blast
    from st OpGet g have r: "r = Some (Inr (last (stack t (dv \<sigma>))))" and s': "\<sigma>' = \<sigma>\<lparr>dv := s1\<rparr>"
      by simp_all
    from f have stacks: "\<And>u. stack u s1 = stack u (dv \<sigma>)"
      using same by (metis frame_ok_def)
    have "sys_wf \<sigma>'"
      using f own depth stacks by (simp add: sys_wf_def s' frame_ok_def)
    with r s' stacks OpGet show ?thesis by (simp add: view_def)
  next
    case (OpEnter v)
    obtain a s1 where e: "bind_enter t v (dv \<sigma>) = (a, s1)" by (cases "bind_enter t v (dv \<sigma>)")
    note p = bind_enter_props [OF dwf e]
    from st OpEnter e have r: "r = None"
      and s': "\<sigma>' = \<sigma>\<lparr>dv := s1, open_scopes := (open_scopes \<sigma>)(t := a # open_scopes \<sigma> t)\<rparr>"
      by simp_all
    from p(1) have others: "\<And>u. u \<noteq> t \<Longrightarrow> stack u s1 = stack u (dv \<sigma>)"
      and keep: "\<And>u b. local_values (dv \<sigma>) u = Some b \<Longrightarrow> local_values s1 u = Some b"
      and wf1: "dv_wf s1"
      by (simp_all add: frame_ok_def)
    have "sys_wf \<sigma>'"
      unfolding sys_wf_def
    proof (intro conjI allI impI)
      show "dv_wf (dv \<sigma>')" using wf1 by (simp add: s')
    next
      fix u b assume "b \<in> set (open_scopes \<sigma>' u)"
      then show "local_values (dv \<sigma>') u = Some b"
        using own [of b u] keep [of u b] p(2) by (auto simp: s' split: if_splits)
    next
      fix u show "length (open_scopes \<sigma>' u) < length (stack u (dv \<sigma>'))"
        using depth [of u] others [of u] p(3) by (cases "u = t") (simp_all add: s')
    qed
    with r s' others p(3) OpEnter show ?thesis by (simp add: view_def)
  next
    case OpExit
    show ?thesis
    proof (cases "open_scopes \<sigma> t")
      case Nil
      with st OpExit wf show ?thesis by (simp add: view_def)
    next
      case (Cons a rest)
      from own [of a t] Cons have loc: "local_values (dv \<sigma>) t = Some a" by simp
      from depth [of t] Cons have "2 \<le> length (stack t (dv \<sigma>))" by simp
      from list_pop_props [OF dwf loc this] obtain s3 where pop: "list_pop a (dv \<sigma>) = Inr s3"
        and f: "frame_ok t (dv \<sigma>) s3" and bl: "stack t s3 = butlast (stack t (dv \<sigma>))" by blast
      from st OpExit Cons pop have r: "r = None"
        and s': "\<sigma>' = \<sigma>\<lparr>dv := s3, open_scopes := (open_scopes \<sigma>)(t := rest)\<rparr>"
        by (simp_all add: bind_exit_def)
      from f have others: "\<And>u. u \<noteq> t \<Longrightarrow> stack u s3 = stack u (dv \<sigma>)"
        and keep: "\<And>u b. local_values (dv \<sigma>) u = Some b \<Longrightarrow> local_values s3 u = Some b"
        and wf3: "dv_wf s3"
        by (simp_all add: frame_ok_def)
      have "sys_wf \<sigma>'"
        unfolding sys_wf_def
      proof (intro conjI allI impI)
        show "dv_wf (dv \<sigma>')" using wf3 by (simp add: s')
      next
        fix u b assume "b \<in> set (open_scopes \<sigma>' u)"
        then show "local_values (dv \<sigma>') u = Some b"
          using own [of b u] keep [of u b] Cons by (auto simp: s' split: if_splits)
      next
        fix u show "length (open_scopes \<sigma>' u) < length (stack u (dv \<sigma>'))"
          using depth [of u] others [of u] bl Cons by (cases "u = t") (simp_all add: s')
      qed
      with r s' others bl Cons OpExit show ?thesis by (simp add: view_def)
    qed
  qed
  then show "sys_wf \<sigma>'" "private_step x (view t \<sigma>) = (r, view t \<sigma>')"
    "\<And>u. u \<noteq> t \<Longrightarrow> view u \<sigma>' = view u \<sigma>"
    by simp_all
qed

lemma run_refines:
  "sys_wf \<sigma> \<Longrightarrow>
   map snd (filter (\<lambda>(u, r). u = B) (run sched \<sigma>)) =
     private_run (map snd (filter (\<lambda>(u, x). u = B) sched)) (view B \<sigma>)"
proof (induction sched arbitrary: \<sigma>)
  case Nil
  then show ?case by simp
next
  case (Cons a sched)
  obtain t x where a: "a = (t, x)" by (cases a)
  obtain r \<sigma>' where st: "step (t, x) \<sigma> = (r, \<sigma>')" by (cases "step (t, x) \<sigma>")
  note p = step_refines [OF Cons.prems st]
  note IH = Cons.IH [OF p(1)]
  show ?case
  proof (cases "t = B")
    case True
    with p(2) have "private_step x (view B \<sigma>) = (r, view B \<sigma>')" by simp
    with IH True st show ?thesis by (cases r) (simp_all add: a)
  next
    case False
    with p(3) [of B] have "view B \<sigma>' = view B \<sigma>" by simp
    with IH False st show ?thesis by (cases r) (simp_all add: a)
  qed
qed

lemma filter_by_thread:
  "map (Pair B) (map snd (filter (\<lambda>(u, r). u = B) xs)) = filter (\<lambda>(u, r). u = B) xs"
proof (induction xs)
  case Nil
  show ?case by simp
next
  case (Cons a xs)
  obtain u r where a: "a = (u, r)" by (cases a)
  from Cons.IH show ?case by (cases "u = B") (simp_all add: a)
qed

lemma example_run:
  "run example_schedule sys_init =
     [(1, Inr PNone), (0, Inr (PInt 1)), (1, Inr (PInt 7)), (1, Inr (PInt 7)), (1, Inr PNone),
      (0, Inr PNone)]"
  by (simp add: example_schedule_def sys_init_def dv_defs)

text \<open>
  C10. From a state that keeps the invariant, for two distinct threads \<open>A\<close> and \<open>B\<close>
  and every interleaving of the threads' operations: what thread \<open>B\<close> reads is the same
  with and without the operations of thread \<open>A\<close>, and is what a variable private to
  \<open>B\<close> gives on the operations of \<open>B\<close> alone; and no single operation of \<open>A\<close> changes
  the stack of \<open>B\<close> or the value \<^verbatim>\<open>get()\<close> returns on \<open>B\<close>.
\<close>

theorem thread_isolation:
  assumes "sys_wf \<sigma>" and "A \<noteq> B"
  shows "filter (\<lambda>(u, r). u = B) (run sched \<sigma>) =
           filter (\<lambda>(u, r). u = B) (run (filter (\<lambda>(u, x). u \<noteq> A) sched) \<sigma>) \<and>
         map snd (filter (\<lambda>(u, r). u = B) (run sched \<sigma>)) =
           private_run (map snd (filter (\<lambda>(u, x). u = B) sched)) (view B \<sigma>) \<and>
         (\<forall>x r \<sigma>'. step (A, x) \<sigma> = (r, \<sigma>') \<longrightarrow>
            stack B (dv \<sigma>') = stack B (dv \<sigma>) \<and>
            fst (get B (dv \<sigma>')) = fst (get B (dv \<sigma>)))"
proof -
  have same: "filter (\<lambda>(u, x). u = B) (filter (\<lambda>(u, x). u \<noteq> A) sched) =
      filter (\<lambda>(u, x). u = B) sched"
  proof (induction sched)
    case Nil
    show ?case by simp
  next
    case (Cons a sched)
    obtain u x where a: "a = (u, x)" by (cases a)
    from Cons.IH assms(2) show ?case by (cases "u = B") (simp_all add: a)
  qed
  have 2: "map snd (filter (\<lambda>(u, r). u = B) (run sched \<sigma>)) =
           private_run (map snd (filter (\<lambda>(u, x). u = B) sched)) (view B \<sigma>)"
    using assms(1) by (rule run_refines)
  have "map snd (filter (\<lambda>(u, r). u = B) (run (filter (\<lambda>(u, x). u \<noteq> A) sched) \<sigma>)) =
           private_run (map snd (filter (\<lambda>(u, x). u = B) sched)) (view B \<sigma>)"
    using run_refines [OF assms(1), of B "filter (\<lambda>(u, x). u \<noteq> A) sched"]
    by (simp only: same)
  with 2 have eq: "map snd (filter (\<lambda>(u, r). u = B) (run sched \<sigma>)) =
      map snd (filter (\<lambda>(u, r). u = B) (run (filter (\<lambda>(u, x). u \<noteq> A) sched) \<sigma>))"
    by simp
  have "filter (\<lambda>(u, r). u = B) (run sched \<sigma>) =
      map (Pair B) (map snd (filter (\<lambda>(u, r). u = B) (run sched \<sigma>)))"
    by (rule filter_by_thread [symmetric])
  also have "\<dots> = map (Pair B)
      (map snd (filter (\<lambda>(u, r). u = B) (run (filter (\<lambda>(u, x). u \<noteq> A) sched) \<sigma>)))"
    by (simp only: eq)
  also have "\<dots> = filter (\<lambda>(u, r). u = B) (run (filter (\<lambda>(u, x). u \<noteq> A) sched) \<sigma>)"
    by (rule filter_by_thread)
  finally have 1: "filter (\<lambda>(u, r). u = B) (run sched \<sigma>) =
           filter (\<lambda>(u, r). u = B) (run (filter (\<lambda>(u, x). u \<noteq> A) sched) \<sigma>)" .
  have 3: "stack B (dv \<sigma>') = stack B (dv \<sigma>) \<and> fst (get B (dv \<sigma>')) = fst (get B (dv \<sigma>))"
    if st: "step (A, x) \<sigma> = (r, \<sigma>')" for x r \<sigma>'
  proof -
    note p = step_refines [OF assms(1) st]
    from p(3) [of B] assms(2) have s: "stack B (dv \<sigma>') = stack B (dv \<sigma>)"
      by (simp add: view_def)
    from p(1) have "dv_wf (dv \<sigma>')" by (simp add: sys_wf_def)
    from get_props [OF this, of B] obtain s1
      where "get B (dv \<sigma>') = (Inr (last (stack B (dv \<sigma>'))), s1)" by blast
    then have "fst (get B (dv \<sigma>')) = Inr (last (stack B (dv \<sigma>')))" by simp
    moreover from assms(1) have "dv_wf (dv \<sigma>)" by (simp add: sys_wf_def)
    from get_props [OF this, of B] obtain s2
      where "get B (dv \<sigma>) = (Inr (last (stack B (dv \<sigma>))), s2)" by blast
    then have "fst (get B (dv \<sigma>)) = Inr (last (stack B (dv \<sigma>)))" by simp
    ultimately show ?thesis using s by simp
  qed
  show ?thesis
  proof (intro conjI allI impI)
    show "filter (\<lambda>(u, r). u = B) (run sched \<sigma>) =
           filter (\<lambda>(u, r). u = B) (run (filter (\<lambda>(u, x). u \<noteq> A) sched) \<sigma>)" by (rule 1)
    show "map snd (filter (\<lambda>(u, r). u = B) (run sched \<sigma>)) =
           private_run (map snd (filter (\<lambda>(u, x). u = B) sched)) (view B \<sigma>)" by (rule 2)
  next
    fix x r \<sigma>' assume "step (A, x) \<sigma> = (r, \<sigma>')"
    from 3 [OF this] show "stack B (dv \<sigma>') = stack B (dv \<sigma>)"
      "fst (get B (dv \<sigma>')) = fst (get B (dv \<sigma>))" by simp_all
  qed
qed

theorem thread_isolation_witness:
  "sys_wf sys_init \<and> (0::tid) \<noteq> 1 \<and>
   filter (\<lambda>(u, r). u = 1) (run example_schedule sys_init) =
     [(1, Inr PNone), (1, Inr (PInt 7)), (1, Inr (PInt 7)), (1, Inr PNone)] \<and>
   filter (\<lambda>(u, r). u = 1) (run (filter (\<lambda>(u, x). u \<noteq> 0) example_schedule) sys_init) =
     [(1, Inr PNone), (1, Inr (PInt 7)), (1, Inr (PInt 7)), (1, Inr PNone)]"
proof -
  have ne: "(0::tid) \<noteq> 1" by simp
  have obs: "filter (\<lambda>(u, r). u = 1) (run example_schedule sys_init) =
     [(1, Inr PNone), (1, Inr (PInt 7)), (1, Inr (PInt 7)), (1, Inr PNone)]"
    by (simp add: example_run)
  from thread_isolation [OF sys_wf_init ne, of example_schedule, THEN conjunct1] obs
  have "filter (\<lambda>(u, r). u = 1) (run (filter (\<lambda>(u, x). u \<noteq> 0) example_schedule) sys_init) =
     [(1, Inr PNone), (1, Inr (PInt 7)), (1, Inr (PInt 7)), (1, Inr PNone)]"
    by simp
  with sys_wf_init ne obs show ?thesis by simp
qed

end
